theory Spec2Isabelle
  imports Main "HOL-Library.Word" "HOL-Library.Monad_Syntax"
begin

unbundle bit_operations_syntax

section \<open>Machine types and constants\<close>

text \<open>
  \<^verbatim>\<open>offsetAllocator.h\<close>: \<^verbatim>\<open>uint8\<close> is \<^verbatim>\<open>unsigned char\<close>, \<^verbatim>\<open>uint32\<close> is
  \<^verbatim>\<open>unsigned int\<close> and, with \<^verbatim>\<open>USE_16_BIT_NODE_INDICES\<close> undefined, \<^verbatim>\<open>NodeIndex\<close> is
  \<^verbatim>\<open>uint32\<close>.  Arithmetic on them wraps around modulo \<open>2 ^ 32\<close>, which is what \<open>+\<close>
  and \<open>-\<close> on \<^typ>\<open>32 word\<close> do.
\<close>

type_synonym uint8 = "8 word"
type_synonym uint32 = "32 word"
type_synonym NodeIndex = "32 word"

definition MANTISSA_BITS :: uint32 where [simp]: "MANTISSA_BITS = 3"
definition MANTISSA_VALUE :: uint32 where [simp]: "MANTISSA_VALUE = push_bit (unat MANTISSA_BITS) 1"
definition MANTISSA_MASK :: uint32 where [simp]: "MANTISSA_MASK = MANTISSA_VALUE - 1"
abbreviation NODE_UNUSED :: NodeIndex where "NODE_UNUSED \<equiv> 0xffffffff"
abbreviation NO_SPACE :: uint32 where "NO_SPACE \<equiv> 0xffffffff"

definition NUM_TOP_BINS :: nat where [simp]: "NUM_TOP_BINS = 32"
definition BINS_PER_LEAF :: nat where [simp]: "BINS_PER_LEAF = 8"
definition TOP_BINS_INDEX_SHIFT :: nat where [simp]: "TOP_BINS_INDEX_SHIFT = 3"
definition LEAF_BINS_INDEX_MASK :: uint32 where [simp]: "LEAF_BINS_INDEX_MASK = 0x7"
definition NUM_LEAF_BINS :: nat where [simp]: "NUM_LEAF_BINS = NUM_TOP_BINS * BINS_PER_LEAF"

section \<open>Bit scans\<close>

text \<open>
  \<^verbatim>\<open>lzcnt_nonzero\<close> and \<^verbatim>\<open>tzcnt_nonzero\<close> wrap the compiler's count-leading-zeros and
  count-trailing-zeros builtins.  They are modelled from the builtins' meaning: the
  position of the highest (lowest) set bit is found by halving.  The builtins leave the
  result for the argument 0 undefined; every call below that can receive 0 goes
  through \<open>scan_nonzero\<close>, which makes that case a failure of the model.
\<close>

fun highest_bit :: "nat \<Rightarrow> nat" where
  "highest_bit n = (if n < 2 then 0 else Suc (highest_bit (n div 2)))"

fun lowest_bit :: "nat \<Rightarrow> nat" where
  "lowest_bit n = (if n = 0 \<or> odd n then 0 else Suc (lowest_bit (n div 2)))"

declare highest_bit.simps [simp del] lowest_bit.simps [simp del]

definition lzcnt_nonzero :: "uint32 \<Rightarrow> uint32" where
  "lzcnt_nonzero v = of_nat (31 - highest_bit (unat v))"

definition tzcnt_nonzero :: "uint32 \<Rightarrow> uint32" where
  "tzcnt_nonzero v = of_nat (lowest_bit (unat v))"

definition scan_nonzero :: "(uint32 \<Rightarrow> uint32) \<Rightarrow> uint32 \<Rightarrow> uint32 option" where
  "scan_nonzero f v = (if v = 0 then None else Some (f v))"

section \<open>Size encoding\<close>

text \<open>
  \<^verbatim>\<open>uintToFloatRoundUp\<close>, \<^verbatim>\<open>uintToFloatRoundDown\<close> and \<^verbatim>\<open>floatToUint\<close>, line by line.
  \<^verbatim>\<open>x << n\<close> is \<open>push_bit n x\<close> and \<^verbatim>\<open>x >> n\<close> is \<open>drop_bit n x\<close>; all shift counts that
  occur are below 32.
\<close>

definition uintToFloatRoundUp :: "uint32 \<Rightarrow> uint32" where
  "uintToFloatRoundUp sz =
     (let (exp, mantissa) =
        (if sz < MANTISSA_VALUE then (0, sz)
         else
           let leadingZeros = lzcnt_nonzero sz;
               highestSetBit = 31 - leadingZeros;
               mantissaStartBit = highestSetBit - MANTISSA_BITS;
               exp = mantissaStartBit + 1;
               mantissa = drop_bit (unat mantissaStartBit) sz AND MANTISSA_MASK;
               lowBitsMask = push_bit (unat mantissaStartBit) 1 - 1
           in (exp, if sz AND lowBitsMask \<noteq> 0 then mantissa + 1 else mantissa))
      in push_bit (unat MANTISSA_BITS) exp + mantissa)"

definition uintToFloatRoundDown :: "uint32 \<Rightarrow> uint32" where
  "uintToFloatRoundDown sz =
     (let (exp, mantissa) =
        (if sz < MANTISSA_VALUE then (0, sz)
         else
           let leadingZeros = lzcnt_nonzero sz;
               highestSetBit = 31 - leadingZeros;
               mantissaStartBit = highestSetBit - MANTISSA_BITS;
               exp = mantissaStartBit + 1;
               mantissa = drop_bit (unat mantissaStartBit) sz AND MANTISSA_MASK
           in (exp, mantissa))
      in push_bit (unat MANTISSA_BITS) exp OR mantissa)"

definition floatToUint :: "uint32 \<Rightarrow> uint32" where
  "floatToUint floatValue =
     (let exponent = drop_bit (unat MANTISSA_BITS) floatValue;
          mantissa = floatValue AND MANTISSA_MASK
      in if exponent = 0 then mantissa
         else push_bit (unat (exponent - 1)) (mantissa OR MANTISSA_VALUE))"


section \<open>Allocator state\<close>

text \<open>
  \<^verbatim>\<open>struct _Node\<close>, \<^verbatim>\<open>Allocation\<close>, \<^verbatim>\<open>StorageReport\<close> and \<^verbatim>\<open>Allocator\<close> as records.  The
  arrays \<^verbatim>\<open>m_usedBins[NUM_TOP_BINS]\<close>, \<^verbatim>\<open>m_binIndices[NUM_LEAF_BINS]\<close> and the two
  heap blocks \<^verbatim>\<open>m_nodes\<close> and \<^verbatim>\<open>m_freeNodes\<close> are lists.  A \<^verbatim>\<open>Node\<close> pointer
  \<^verbatim>\<open>&m_nodes[i]\<close> is the index \<open>i\<close>; reading a field through it reads the array as it
  is at that moment.
\<close>

record Node =
  dataOffset :: uint32
  dataSize :: uint32
  binListPrev :: NodeIndex
  binListNext :: NodeIndex
  neighborPrev :: NodeIndex
  neighborNext :: NodeIndex
  used :: bool

record Allocation =
  offset :: uint32
  metadata :: NodeIndex

record StorageReport =
  totalFreeSpace :: uint32
  largestFreeRegion :: uint32

record Allocator =
  m_size :: uint32
  m_maxAllocs :: uint32
  m_freeStorage :: uint32
  m_usedBinsTop :: uint32
  m_usedBins :: "uint8 list"
  m_binIndices :: "NodeIndex list"
  m_nodes :: "Node list"
  m_freeNodes :: "NodeIndex list"
  m_freeOffset :: uint32

definition EmptyAllocation :: Allocation where
  "EmptyAllocation = \<lparr>offset = NO_SPACE, metadata = NO_SPACE\<rparr>"

text \<open>
  C does not check array bounds: an access outside an array is undefined behaviour.
  The model makes it a failure, \<open>None\<close>, so every operation below returns an option
  and \<open>None\<close> stands for "the C program has no defined result here".
\<close>

definition array_get :: "'a list \<Rightarrow> uint32 \<Rightarrow> 'a option" where
  "array_get xs i = (if unat i < length xs then Some (xs ! unat i) else None)"

definition array_set :: "'a list \<Rightarrow> uint32 \<Rightarrow> 'a \<Rightarrow> 'a list option" where
  "array_set xs i v = (if unat i < length xs then Some (xs[unat i := v]) else None)"

definition array_upd :: "'a list \<Rightarrow> uint32 \<Rightarrow> ('a \<Rightarrow> 'a) \<Rightarrow> 'a list option" where
  "array_upd xs i f = (if unat i < length xs then Some (xs[unat i := f (xs ! unat i)]) else None)"

section \<open>Bitmap search\<close>

text \<open>
  \<^verbatim>\<open>findLowestSetBitAfter\<close>.  The C expression \<^verbatim>\<open>(1 << startBitIndex) - 1\<close> is computed
  on 32 bits; \<^verbatim>\<open>startBitIndex\<close> is at most 31 at both call sites.
\<close>

definition findLowestSetBitAfter :: "uint32 \<Rightarrow> uint32 \<Rightarrow> uint32" where
  "findLowestSetBitAfter bitMask startBitIndex =
     (let maskBeforeStartIndex = push_bit (unat startBitIndex) 1 - 1;
          maskAfterStartIndex = NOT maskBeforeStartIndex;
          bitsAfter = bitMask AND maskAfterStartIndex
      in if bitsAfter = 0 then NO_SPACE else tzcnt_nonzero bitsAfter)"

section \<open>Bin lists\<close>

text \<open>
  \<^verbatim>\<open>insertNodeIntoBin\<close>: takes the slot on top of the freelist stack, initialises it as
  a free node of the given size and offset and puts it at the head of its bin.
\<close>

definition insertNodeIntoBin :: "Allocator \<Rightarrow> uint32 \<Rightarrow> uint32 \<Rightarrow> (uint32 \<times> Allocator) option" where
  "insertNodeIntoBin allocator sz dataOffset' = do {
     let binIndex = uintToFloatRoundDown sz;
     let topBinIndex = drop_bit TOP_BINS_INDEX_SHIFT binIndex;
     let leafBinIndex = binIndex AND LEAF_BINS_INDEX_MASK;
     head \<leftarrow> array_get (m_binIndices allocator) binIndex;
     a1 \<leftarrow> (if head = NODE_UNUSED then do {
              bins \<leftarrow> array_upd (m_usedBins allocator) topBinIndex
                        (\<lambda>b. b OR ucast (push_bit (unat leafBinIndex) (1 :: uint32)));
              Some (allocator\<lparr>m_usedBins := bins,
                      m_usedBinsTop := m_usedBinsTop allocator OR push_bit (unat topBinIndex) 1\<rparr>)
            } else Some allocator);
     topNodeIndex \<leftarrow> array_get (m_binIndices a1) binIndex;
     nodeIndex \<leftarrow> array_get (m_freeNodes a1) (m_freeOffset a1);
     let a2 = a1\<lparr>m_freeOffset := m_freeOffset a1 - 1\<rparr>;
     nodes1 \<leftarrow> array_upd (m_nodes a2) nodeIndex
                 (\<lambda>n. n\<lparr>dataOffset := dataOffset', dataSize := sz, binListNext := topNodeIndex,
                         binListPrev := NODE_UNUSED, neighborPrev := NODE_UNUSED,
                         neighborNext := NODE_UNUSED, used := False\<rparr>);
     nodes2 \<leftarrow> (if topNodeIndex \<noteq> NODE_UNUSED
                 then array_upd nodes1 topNodeIndex (\<lambda>n. n\<lparr>binListPrev := nodeIndex\<rparr>)
                 else Some nodes1);
     bi \<leftarrow> array_set (m_binIndices a2) binIndex nodeIndex;
     Some (nodeIndex,
           a2\<lparr>m_nodes := nodes2, m_binIndices := bi, m_freeStorage := m_freeStorage a2 + sz\<rparr>)
   }"

text \<open>
  \<^verbatim>\<open>removeNodeFromBin\<close>: unlinks a free node from its bin list (fixing the bin head and
  the bitmap when it was the head) and pushes its slot on the freelist stack.
\<close>

definition removeNodeFromBin :: "Allocator \<Rightarrow> uint32 \<Rightarrow> Allocator option" where
  "removeNodeFromBin allocator nodeIndex = do {
     node \<leftarrow> array_get (m_nodes allocator) nodeIndex;
     a1 \<leftarrow> (if binListPrev node \<noteq> NODE_UNUSED then do {
              nodes1 \<leftarrow> array_upd (m_nodes allocator) (binListPrev node)
                          (\<lambda>n. n\<lparr>binListNext := binListNext node\<rparr>);
              node1 \<leftarrow> array_get nodes1 nodeIndex;
              nodes2 \<leftarrow> (if binListNext node1 \<noteq> NODE_UNUSED
                          then array_upd nodes1 (binListNext node1)
                                 (\<lambda>n. n\<lparr>binListPrev := binListPrev node1\<rparr>)
                          else Some nodes1);
              Some (allocator\<lparr>m_nodes := nodes2\<rparr>)
            } else do {
              let binIndex = uintToFloatRoundDown (dataSize node);
              let topBinIndex = drop_bit TOP_BINS_INDEX_SHIFT binIndex;
              let leafBinIndex = binIndex AND LEAF_BINS_INDEX_MASK;
              bi \<leftarrow> array_set (m_binIndices allocator) binIndex (binListNext node);
              nodes1 \<leftarrow> (if binListNext node \<noteq> NODE_UNUSED
                          then array_upd (m_nodes allocator) (binListNext node)
                                 (\<lambda>n. n\<lparr>binListPrev := NODE_UNUSED\<rparr>)
                          else Some (m_nodes allocator));
              let a = allocator\<lparr>m_binIndices := bi, m_nodes := nodes1\<rparr>;
              head \<leftarrow> array_get (m_binIndices a) binIndex;
              if head = NODE_UNUSED then do {
                bins \<leftarrow> array_upd (m_usedBins a) topBinIndex
                          (\<lambda>b. b AND ucast (NOT (push_bit (unat leafBinIndex) (1 :: uint32))));
                b \<leftarrow> array_get bins topBinIndex;
                Some (a\<lparr>m_usedBins := bins,
                        m_usedBinsTop :=
                          (if b = 0 then m_usedBinsTop a AND NOT (push_bit (unat topBinIndex) 1)
                           else m_usedBinsTop a)\<rparr>)
              } else Some a
            });
     freeNodes \<leftarrow> array_set (m_freeNodes a1) (m_freeOffset a1 + 1) nodeIndex;
     node2 \<leftarrow> array_get (m_nodes a1) nodeIndex;
     Some (a1\<lparr>m_freeOffset := m_freeOffset a1 + 1, m_freeNodes := freeNodes,
              m_freeStorage := m_freeStorage a1 - dataSize node2\<rparr>)
   }"


section \<open>Allocation\<close>

text \<open>
  \<^verbatim>\<open>allocate\<close>, lines 239 to 267: the search for the lowest non-empty bin at or above
  \<^verbatim>\<open>minBinIndex\<close>.  The result is \<open>None\<close> where C is undefined, \<open>Some None\<close> for "out of
  space" and \<open>Some (Some (topBinIndex, leafBinIndex))\<close> for the bin found.
\<close>

definition findBin :: "Allocator \<Rightarrow> uint32 \<Rightarrow> (uint32 \<times> uint32) option option" where
  "findBin allocator minBinIndex = do {
     let minTopBinIndex = drop_bit TOP_BINS_INDEX_SHIFT minBinIndex;
     let minLeafBinIndex = minBinIndex AND LEAF_BINS_INDEX_MASK;
     let topBinIndex = minTopBinIndex;
     leafBinIndex \<leftarrow>
       (if m_usedBinsTop allocator AND push_bit (unat topBinIndex) 1 \<noteq> 0 then do {
          b \<leftarrow> array_get (m_usedBins allocator) topBinIndex;
          Some (findLowestSetBitAfter (ucast b) minLeafBinIndex)
        } else Some NO_SPACE);
     if leafBinIndex = NO_SPACE then do {
       let topBinIndex = findLowestSetBitAfter (m_usedBinsTop allocator) (minTopBinIndex + 1);
       if topBinIndex = NO_SPACE then Some None
       else do {
         b \<leftarrow> array_get (m_usedBins allocator) topBinIndex;
         leafBinIndex \<leftarrow> scan_nonzero tzcnt_nonzero (ucast b);
         Some (Some (topBinIndex, leafBinIndex))
       }
     } else Some (Some (topBinIndex, leafBinIndex))
   }"

text \<open>
  \<^verbatim>\<open>allocate\<close>, lines 269 to 296: pop the head of the bin found, mark it used and clear
  the bitmap bits of a bin that became empty.  The result carries \<^verbatim>\<open>nodeIndex\<close> and
  \<^verbatim>\<open>nodeTotalSize\<close> on to the rest of the function.
\<close>

definition popBinTop ::
    "Allocator \<Rightarrow> uint32 \<Rightarrow> uint32 \<Rightarrow> uint32 \<Rightarrow> (NodeIndex \<times> uint32 \<times> Allocator) option" where
  "popBinTop allocator sz topBinIndex leafBinIndex = do {
     let binIndex = push_bit TOP_BINS_INDEX_SHIFT topBinIndex OR leafBinIndex;
     nodeIndex \<leftarrow> array_get (m_binIndices allocator) binIndex;
     node \<leftarrow> array_get (m_nodes allocator) nodeIndex;
     let nodeTotalSize = dataSize node;
     nodes1 \<leftarrow> array_upd (m_nodes allocator) nodeIndex (\<lambda>n. n\<lparr>dataSize := sz, used := True\<rparr>);
     node1 \<leftarrow> array_get nodes1 nodeIndex;
     bi \<leftarrow> array_set (m_binIndices allocator) binIndex (binListNext node1);
     nodes2 \<leftarrow> (if binListNext node1 \<noteq> NODE_UNUSED
                 then array_upd nodes1 (binListNext node1) (\<lambda>n. n\<lparr>binListPrev := NODE_UNUSED\<rparr>)
                 else Some nodes1);
     let a1 = allocator\<lparr>m_nodes := nodes2, m_binIndices := bi,
                          m_freeStorage := m_freeStorage allocator - nodeTotalSize\<rparr>;
     head \<leftarrow> array_get (m_binIndices a1) binIndex;
     a2 \<leftarrow> (if head = NODE_UNUSED then do {
              bins \<leftarrow> array_upd (m_usedBins a1) topBinIndex
                        (\<lambda>b. b AND ucast (NOT (push_bit (unat leafBinIndex) (1 :: uint32))));
              b \<leftarrow> array_get bins topBinIndex;
              Some (a1\<lparr>m_usedBins := bins,
                       m_usedBinsTop :=
                         (if b = 0 then m_usedBinsTop a1 AND NOT (push_bit (unat topBinIndex) 1)
                          else m_usedBinsTop a1)\<rparr>)
            } else Some a1);
     Some (nodeIndex, nodeTotalSize, a2)
   }"

text \<open>
  \<^verbatim>\<open>allocate\<close>, lines 298 to 313: when the popped region is larger than the request, the
  rest goes back into a bin as a new free node, linked into the neighbour chain right
  after the allocated node.
\<close>

definition pushReminder :: "Allocator \<Rightarrow> NodeIndex \<Rightarrow> uint32 \<Rightarrow> uint32 \<Rightarrow> Allocator option" where
  "pushReminder allocator nodeIndex nodeTotalSize sz = do {
     let reminderSize = nodeTotalSize - sz;
     if reminderSize > 0 then do {
       node \<leftarrow> array_get (m_nodes allocator) nodeIndex;
       (newNodeIndex, a) \<leftarrow> insertNodeIntoBin allocator reminderSize (dataOffset node + sz);
       node \<leftarrow> array_get (m_nodes a) nodeIndex;
       nodesA \<leftarrow> (if neighborNext node \<noteq> NODE_UNUSED
                   then array_upd (m_nodes a) (neighborNext node)
                          (\<lambda>n. n\<lparr>neighborPrev := newNodeIndex\<rparr>)
                   else Some (m_nodes a));
       nodesB \<leftarrow> array_upd nodesA newNodeIndex (\<lambda>n. n\<lparr>neighborPrev := nodeIndex\<rparr>);
       node \<leftarrow> array_get nodesB nodeIndex;
       nodesC \<leftarrow> array_upd nodesB newNodeIndex (\<lambda>n. n\<lparr>neighborNext := neighborNext node\<rparr>);
       nodesD \<leftarrow> array_upd nodesC nodeIndex (\<lambda>n. n\<lparr>neighborNext := newNodeIndex\<rparr>);
       Some (a\<lparr>m_nodes := nodesD\<rparr>)
     } else Some allocator
   }"

text \<open>
  \<^verbatim>\<open>allocate\<close>, lines 269 to 318: the two blocks above, then the result is read from
  the allocated node.
\<close>

definition allocateFromBin ::
    "Allocator \<Rightarrow> uint32 \<Rightarrow> uint32 \<Rightarrow> uint32 \<Rightarrow> (Allocation \<times> Allocator) option" where
  "allocateFromBin allocator sz topBinIndex leafBinIndex = do {
     (nodeIndex, nodeTotalSize, a) \<leftarrow> popBinTop allocator sz topBinIndex leafBinIndex;
     a \<leftarrow> pushReminder a nodeIndex nodeTotalSize sz;
     node \<leftarrow> array_get (m_nodes a) nodeIndex;
     Some (\<lparr>offset = dataOffset node, metadata = nodeIndex\<rparr>, a)
   }"

text \<open>\<^verbatim>\<open>allocate\<close> as a whole.  Both early returns give back \<^verbatim>\<open>EmptyAllocation\<close>.\<close>

definition allocate :: "Allocator \<Rightarrow> uint32 \<Rightarrow> (Allocation \<times> Allocator) option" where
  "allocate allocator sz =
     (if m_freeOffset allocator = 0 then Some (EmptyAllocation, allocator)
      else do {
        let minBinIndex = uintToFloatRoundUp sz;
        found \<leftarrow> findBin allocator minBinIndex;
        case found of
          None \<Rightarrow> Some (EmptyAllocation, allocator)
        | Some (topBinIndex, leafBinIndex) \<Rightarrow>
            allocateFromBin allocator sz topBinIndex leafBinIndex
      })"

section \<open>Release\<close>

text \<open>
  \<^verbatim>\<open>freeAllocation\<close>.  The \<^verbatim>\<open>ASSERT\<close>s compile to nothing without \<^verbatim>\<open>DEBUG\<close>.  The test
  \<^verbatim>\<open>if (!allocator->m_nodes) return;\<close> guards an allocator whose arrays were never
  allocated; the states of this model always carry their arrays, so that branch has no
  counterpart here.  The conjunction \<^verbatim>\<open>&&\<close> reads the neighbour only when the link is
  not \<^verbatim>\<open>NODE_UNUSED\<close>.  The two merge steps (lines 336 to 349 and 351 to 362) are
  definitions of their own; \<^verbatim>\<open>offset\<close> and \<^verbatim>\<open>size\<close> are the local variables they update.
\<close>

definition mergePrev ::
    "Allocator \<Rightarrow> NodeIndex \<Rightarrow> uint32 \<Rightarrow> uint32 \<Rightarrow> (Allocator \<times> uint32 \<times> uint32) option" where
  \<comment> \<open>lines 336 to 349; returns the allocator with the new \<^verbatim>\<open>offset\<close> and \<^verbatim>\<open>size\<close>\<close>
  "mergePrev allocator nodeIndex offset' size' = do {
     node \<leftarrow> array_get (m_nodes allocator) nodeIndex;
     if neighborPrev node \<noteq> NODE_UNUSED then do {
       prevNode \<leftarrow> array_get (m_nodes allocator) (neighborPrev node);
       if used prevNode = False then do {
         let offset' = dataOffset prevNode;
         let size' = size' + dataSize prevNode;
         a \<leftarrow> removeNodeFromBin allocator (neighborPrev node);
         prevNode \<leftarrow> array_get (m_nodes a) (neighborPrev node);
         nodes \<leftarrow> array_upd (m_nodes a) nodeIndex (\<lambda>n. n\<lparr>neighborPrev := neighborPrev prevNode\<rparr>);
         Some (a\<lparr>m_nodes := nodes\<rparr>, offset', size')
       } else Some (allocator, offset', size')
     } else Some (allocator, offset', size')
   }"

definition mergeNext ::
    "Allocator \<Rightarrow> NodeIndex \<Rightarrow> uint32 \<Rightarrow> (Allocator \<times> uint32) option" where
  \<comment> \<open>lines 351 to 362; returns the allocator with the new \<^verbatim>\<open>size\<close>\<close>
  "mergeNext allocator nodeIndex size' = do {
     node \<leftarrow> array_get (m_nodes allocator) nodeIndex;
     if neighborNext node \<noteq> NODE_UNUSED then do {
       nextNode \<leftarrow> array_get (m_nodes allocator) (neighborNext node);
       if used nextNode = False then do {
         let size' = size' + dataSize nextNode;
         a \<leftarrow> removeNodeFromBin allocator (neighborNext node);
         nextNode \<leftarrow> array_get (m_nodes a) (neighborNext node);
         nodes \<leftarrow> array_upd (m_nodes a) nodeIndex (\<lambda>n. n\<lparr>neighborNext := neighborNext nextNode\<rparr>);
         Some (a\<lparr>m_nodes := nodes\<rparr>, size')
       } else Some (allocator, size')
     } else Some (allocator, size')
   }"

definition freeAllocation :: "Allocator \<Rightarrow> Allocation \<Rightarrow> Allocator option" where
  "freeAllocation allocator allocation = do {
     let nodeIndex = metadata allocation;
     node \<leftarrow> array_get (m_nodes allocator) nodeIndex;
     let offset' = dataOffset node;
     let size' = dataSize node;
     (a, offset', size') \<leftarrow> mergePrev allocator nodeIndex offset' size';
     (a, size') \<leftarrow> mergeNext a nodeIndex size';
     node \<leftarrow> array_get (m_nodes a) nodeIndex;
     let neighborNext' = neighborNext node;
     let neighborPrev' = neighborPrev node;
     freeNodes \<leftarrow> array_set (m_freeNodes a) (m_freeOffset a + 1) nodeIndex;
     let a = a\<lparr>m_freeOffset := m_freeOffset a + 1, m_freeNodes := freeNodes\<rparr>;
     (combinedNodeIndex, a) \<leftarrow> insertNodeIntoBin a size' offset';
     nodes \<leftarrow> (if neighborNext' \<noteq> NODE_UNUSED then do {
                  nodes \<leftarrow> array_upd (m_nodes a) combinedNodeIndex (\<lambda>n. n\<lparr>neighborNext := neighborNext'\<rparr>);
                  array_upd nodes neighborNext' (\<lambda>n. n\<lparr>neighborPrev := combinedNodeIndex\<rparr>)
                } else Some (m_nodes a));
     nodes \<leftarrow> (if neighborPrev' \<noteq> NODE_UNUSED then do {
                  nodes \<leftarrow> array_upd nodes combinedNodeIndex (\<lambda>n. n\<lparr>neighborPrev := neighborPrev'\<rparr>);
                  array_upd nodes neighborPrev' (\<lambda>n. n\<lparr>neighborNext := combinedNodeIndex\<rparr>)
                } else Some nodes);
     Some (a\<lparr>m_nodes := nodes\<rparr>)
   }"

section \<open>Initialisation\<close>

text \<open>
  \<^verbatim>\<open>resetAllocator\<close>.  The three \<^verbatim>\<open>for\<close> loops are folds over the index range.
  \<^verbatim>\<open>calloc\<close> is taken to succeed and returns zero-filled blocks of \<^verbatim>\<open>m_maxAllocs\<close>
  entries; releasing the old blocks has no effect on the model.
\<close>

definition zeroNode :: Node where
  "zeroNode = \<lparr>dataOffset = 0, dataSize = 0, binListPrev = 0, binListNext = 0,
                neighborPrev = 0, neighborNext = 0, used = False\<rparr>"

definition resetAllocator :: "Allocator \<Rightarrow> Allocator option" where
  "resetAllocator allocator = do {
     let a = allocator\<lparr>m_freeStorage := 0, m_usedBinsTop := 0,
                         m_freeOffset := m_maxAllocs allocator - 1\<rparr>;
     let a = a\<lparr>m_usedBins := fold (\<lambda>i bins. bins[i := 0]) [0..<NUM_TOP_BINS] (m_usedBins a)\<rparr>;
     let a = a\<lparr>m_binIndices :=
                 fold (\<lambda>i bi. bi[i := NODE_UNUSED]) [0..<NUM_LEAF_BINS] (m_binIndices a)\<rparr>;
     let a = a\<lparr>m_nodes := replicate (unat (m_maxAllocs a)) zeroNode,
                 m_freeNodes := replicate (unat (m_maxAllocs a)) 0\<rparr>;
     let a = fold (\<lambda>i a. a\<lparr>m_freeNodes := (m_freeNodes a)[i := m_maxAllocs a - of_nat i - 1],
                             m_nodes := (m_nodes a)[i := (m_nodes a ! i)
                               \<lparr>binListNext := NODE_UNUSED, binListPrev := NODE_UNUSED,
                                neighborPrev := NODE_UNUSED, neighborNext := NODE_UNUSED\<rparr>]\<rparr>)
               [0..<unat (m_maxAllocs a)] a;
     (nodeIndex, a) \<leftarrow> insertNodeIntoBin a (m_size a) 0;
     Some a
   }"

text \<open>
  \<^verbatim>\<open>initAllocator\<close>: the designated initialiser sets \<^verbatim>\<open>m_size\<close> and \<^verbatim>\<open>m_maxAllocs\<close>, the
  two pointers are \<^verbatim>\<open>NULL\<close> (empty arrays here) and every other member is zero.
\<close>

definition initAllocator :: "uint32 \<Rightarrow> uint32 \<Rightarrow> Allocator option" where
  "initAllocator sz max_allocs =
     resetAllocator \<lparr>m_size = sz, m_maxAllocs = max_allocs, m_freeStorage = 0,
                     m_usedBinsTop = 0, m_usedBins = replicate NUM_TOP_BINS 0,
                     m_binIndices = replicate NUM_LEAF_BINS 0, m_nodes = [], m_freeNodes = [],
                     m_freeOffset = 0\<rparr>"

section \<open>Reports\<close>

text \<open>\<^verbatim>\<open>storageReport\<close>.\<close>

definition storageReport :: "Allocator \<Rightarrow> StorageReport option" where
  "storageReport allocator =
     (if m_freeOffset allocator > 0 then
        (if m_usedBinsTop allocator \<noteq> 0 then do {
           let topBinIndex = 31 - lzcnt_nonzero (m_usedBinsTop allocator);
           b \<leftarrow> array_get (m_usedBins allocator) topBinIndex;
           lz \<leftarrow> scan_nonzero lzcnt_nonzero (ucast b);
           let leafBinIndex = 31 - lz;
           Some \<lparr>totalFreeSpace = m_freeStorage allocator,
                 largestFreeRegion =
                   floatToUint (push_bit TOP_BINS_INDEX_SHIFT topBinIndex OR leafBinIndex)\<rparr>
         } else Some \<lparr>totalFreeSpace = m_freeStorage allocator, largestFreeRegion = 0\<rparr>)
      else Some \<lparr>totalFreeSpace = 0, largestFreeRegion = 0\<rparr>)"


section \<open>Specification-level definitions\<close>

text \<open>The encoding read on natural numbers.\<close>

definition rd_nat :: "nat \<Rightarrow> nat" where
  "rd_nat n = (if n < 8 then n else 8 * (highest_bit n - 3) + n div 2 ^ (highest_bit n - 3))"

definition ru_nat :: "nat \<Rightarrow> nat" where
  "ru_nat n = (if n < 8 then n else rd_nat n + (if n mod 2 ^ (highest_bit n - 3) = 0 then 0 else 1))"

definition dec_nat :: "nat \<Rightarrow> nat" where
  "dec_nat v = (if v < 8 then v else (8 + v mod 8) * 2 ^ (v div 8 - 1))"


text \<open>The node that the second loop of \<^verbatim>\<open>resetAllocator\<close> leaves in every slot.\<close>

definition freshNode :: Node where
  "freshNode = \<lparr>dataOffset = 0, dataSize = 0, binListPrev = NODE_UNUSED, binListNext = NODE_UNUSED,
                neighborPrev = NODE_UNUSED, neighborNext = NODE_UNUSED, used = False\<rparr>"


text \<open>A bounded universal quantifier that the simplifier can run through.\<close>

primrec all_below :: "(nat \<Rightarrow> bool) \<Rightarrow> nat \<Rightarrow> bool" where
  "all_below P 0 = True"
| "all_below P (Suc n) = (P n \<and> all_below P n)"

definition roundtrip_at :: "nat \<Rightarrow> bool" where
  "roundtrip_at i =
     (uintToFloatRoundUp (floatToUint (of_nat i)) = of_nat i \<and>
      uintToFloatRoundDown (floatToUint (of_nat i)) = of_nat i)"

section \<open>Evaluation on numerals\<close>

lemma highest_bit_numeral [simp]:
  "highest_bit 0 = 0"
  "highest_bit 1 = 0"
  "highest_bit (Suc 0) = 0"
  "highest_bit (numeral Num.One) = 0"
  "highest_bit (numeral (Num.Bit0 k)) = highest_bit (numeral k) + 1"
  "highest_bit (numeral (Num.Bit1 k)) = highest_bit (numeral k) + 1"
proof -
  show "highest_bit 0 = 0" "highest_bit 1 = 0" "highest_bit (Suc 0) = 0" "highest_bit (numeral Num.One) = 0"
    by (simp_all add: highest_bit.simps)
  have "numeral (Num.Bit0 k) div (2::nat) = numeral k" by simp
  moreover have "\<not> numeral (Num.Bit0 k) < (2::nat)" by simp
  ultimately show "highest_bit (numeral (Num.Bit0 k)) = highest_bit (numeral k) + 1"
    by (subst highest_bit.simps) (simp only: if_False Suc_eq_plus1)
  have "numeral (Num.Bit1 k) div (2::nat) = numeral k" by simp
  moreover have "\<not> numeral (Num.Bit1 k) < (2::nat)" by simp
  ultimately show "highest_bit (numeral (Num.Bit1 k)) = highest_bit (numeral k) + 1"
    by (subst highest_bit.simps) (simp only: if_False Suc_eq_plus1)
qed

lemma lowest_bit_numeral [simp]:
  "lowest_bit 0 = 0"
  "lowest_bit 1 = 0"
  "lowest_bit (Suc 0) = 0"
  "lowest_bit (numeral Num.One) = 0"
  "lowest_bit (numeral (Num.Bit0 k)) = lowest_bit (numeral k) + 1"
  "lowest_bit (numeral (Num.Bit1 k)) = 0"
proof -
  show "lowest_bit 0 = 0" "lowest_bit 1 = 0" "lowest_bit (Suc 0) = 0" "lowest_bit (numeral Num.One) = 0"
    "lowest_bit (numeral (Num.Bit1 k)) = 0"
    by (simp_all add: lowest_bit.simps)
  have "numeral (Num.Bit0 k) div (2::nat) = numeral k" by simp
  moreover have "\<not> (numeral (Num.Bit0 k) = (0::nat) \<or> odd (numeral (Num.Bit0 k) :: nat))" by simp
  ultimately show "lowest_bit (numeral (Num.Bit0 k)) = lowest_bit (numeral k) + 1"
    by (subst lowest_bit.simps) (simp only: if_False Suc_eq_plus1)
qed


lemma all_below_iff: "all_below P n \<longleftrightarrow> (\<forall>i<n. P i)"
  by (induction n) (auto simp: less_Suc_eq)

lemma all_below_numeral:
  "all_below P (numeral k) = (P (pred_numeral k) \<and> all_below P (pred_numeral k))"
  by (simp add: numeral_eq_Suc)

lemma fold_fill_aux:
  "k \<le> length xs \<Longrightarrow> fold (\<lambda>i ys. ys[i := v]) [0..<k] xs = replicate k v @ drop k xs"
proof (induction k)
  case 0
  then show ?case by simp
next
  case (Suc k)
  then have "fold (\<lambda>i ys. ys[i := v]) [0..<Suc k] xs = (replicate k v @ drop k xs)[k := v]"
    by simp
  also have "\<dots> = replicate k v @ (drop k xs)[0 := v]"
    by (simp add: list_update_append)
  also have "(drop k xs)[0 := v] = v # drop (Suc k) xs"
    using Suc.prems by (metis Cons_nth_drop_Suc Suc_le_lessD list_update_code(2))
  finally show ?case by (simp add: replicate_append_same)
qed

lemma fold_fill: "length xs = n \<Longrightarrow> fold (\<lambda>i ys. ys[i := v]) [0..<n] xs = replicate n v"
  using fold_fill_aux [of n xs v] by simp

lemma init_loop_aux:
  assumes "m_freeNodes a = replicate n 0" "m_nodes a = replicate n zeroNode" "k \<le> n"
  shows "fold (\<lambda>i a. a\<lparr>m_freeNodes := (m_freeNodes a)[i := m_maxAllocs a - of_nat i - 1],
                             m_nodes := (m_nodes a)[i := (m_nodes a ! i)
                               \<lparr>binListNext := NODE_UNUSED, binListPrev := NODE_UNUSED,
                                neighborPrev := NODE_UNUSED, neighborNext := NODE_UNUSED\<rparr>]\<rparr>)
               [0..<k] a
         = a\<lparr>m_freeNodes := map (\<lambda>i. m_maxAllocs a - of_nat i - 1) [0..<k] @ replicate (n - k) 0,
             m_nodes := replicate k freshNode @ replicate (n - k) zeroNode\<rparr>"
  using assms(3)
proof (induction k)
  case 0
  then show ?case using assms(1,2) by simp
next
  case (Suc k)
  then have k: "k < n" by simp
  then obtain d where d: "n - k = Suc d" "n - Suc k = d" by (metis Suc_diff_Suc)
  have "zeroNode\<lparr>binListNext := NODE_UNUSED, binListPrev := NODE_UNUSED,
                                neighborPrev := NODE_UNUSED, neighborNext := NODE_UNUSED\<rparr> = freshNode"
    by (simp add: zeroNode_def freshNode_def)
  then show ?case using Suc k
    by (simp add: d nth_append list_update_append replicate_append_same)
qed

lemma init_loop:
  assumes "m_freeNodes a = replicate n 0" "m_nodes a = replicate n zeroNode"
  shows "fold (\<lambda>i a. a\<lparr>m_freeNodes := (m_freeNodes a)[i := m_maxAllocs a - of_nat i - 1],
                             m_nodes := (m_nodes a)[i := (m_nodes a ! i)
                               \<lparr>binListNext := NODE_UNUSED, binListPrev := NODE_UNUSED,
                                neighborPrev := NODE_UNUSED, neighborNext := NODE_UNUSED\<rparr>]\<rparr>)
               [0..<n] a
         = a\<lparr>m_freeNodes := map (\<lambda>i. m_maxAllocs a - of_nat i - 1) [0..<n],
             m_nodes := replicate n freshNode\<rparr>"
  using init_loop_aux [OF assms, of n] by simp

lemma option_bind_weak_cong: "m = m' \<Longrightarrow> Option.bind m f = Option.bind m' f"
  by simp

lemmas array_defs = array_get_def array_set_def array_upd_def


lemmas eval_defs = initAllocator_def resetAllocator_def Let_def fold_fill init_loop
     insertNodeIntoBin_def removeNodeFromBin_def allocate_def allocateFromBin_def findBin_def
     popBinTop_def pushReminder_def mergePrev_def mergeNext_def freeAllocation_def findLowestSetBitAfter_def scan_nonzero_def tzcnt_nonzero_def
     array_defs uintToFloatRoundDown_def uintToFloatRoundUp_def lzcnt_nonzero_def freshNode_def
     EmptyAllocation_def


section \<open>The size encoding on natural numbers\<close>

lemma highest_bit_bounds: "0 < n \<Longrightarrow> 2 ^ highest_bit n \<le> n \<and> n < 2 * 2 ^ highest_bit n"
proof (induction n rule: highest_bit.induct)
  case (1 n)
  show ?case
  proof (cases "n < 2")
    case True
    with 1(2) have "n = 1" by simp
    then show ?thesis by (simp add: highest_bit.simps)
  next
    case False
    then have "0 < n div 2" by simp
    with 1(1) False have IH: "2 ^ highest_bit (n div 2) \<le> n div 2 \<and> n div 2 < 2 * 2 ^ highest_bit (n div 2)"
      by simp
    have hb: "highest_bit n = Suc (highest_bit (n div 2))"
      using False by (subst highest_bit.simps) simp
    from IH show ?thesis unfolding hb by auto
  qed
qed

lemma highest_bit_unique:
  assumes "2 ^ h \<le> n" "n < 2 * 2 ^ h"
  shows "highest_bit n = h"
proof -
  have pos: "0 < n" using assms(1) by (cases "n = 0") simp_all
  from highest_bit_bounds [OF pos] have b: "2 ^ highest_bit n \<le> n" "n < 2 ^ Suc (highest_bit n)" by simp_all
  have "(2::nat) ^ h < 2 ^ Suc (highest_bit n)" using assms(1) b(2) by simp
  then have 1: "h < Suc (highest_bit n)" by (simp only: power_strict_increasing_iff rel_simps)
  have "(2::nat) ^ highest_bit n < 2 ^ Suc h" using assms(2) b(1) by simp
  then have 2: "highest_bit n < Suc h" by (simp only: power_strict_increasing_iff rel_simps)
  from 1 2 show ?thesis by simp
qed

lemma highest_bit_mono: "m \<le> n \<Longrightarrow> highest_bit m \<le> highest_bit n"
proof (cases "m = 0")
  case True
  then show ?thesis by (simp add: highest_bit.simps)
next
  case False
  assume le: "m \<le> n"
  with False have "0 < m" "0 < n" by simp_all
  from highest_bit_bounds [OF this(1)] highest_bit_bounds [OF this(2)] le
  have "(2::nat) ^ highest_bit m < 2 ^ Suc (highest_bit n)" by simp
  then have "highest_bit m < Suc (highest_bit n)" by (simp only: power_strict_increasing_iff rel_simps)
  then show ?thesis by simp
qed

lemma normal_facts:
  fixes S :: "32 word"
  assumes "\<not> S < 8"
  defines "n \<equiv> unat S" and "h \<equiv> highest_bit (unat S)"
  shows "3 \<le> h" "h \<le> 31" "2 ^ h \<le> n" "n < 2 * 2 ^ h"
    "8 \<le> n div 2 ^ (h - 3)" "n div 2 ^ (h - 3) < 16"
    "31 - lzcnt_nonzero S - 3 = of_nat (h - 3)"
proof -
  have n8: "8 \<le> n" using assms(1) by (simp add: n_def word_less_nat_alt)
  have nlt: "n < 2 ^ 32" unfolding n_def using unsigned_less [of S] by simp
  from n8 have "0 < n" by simp
  from highest_bit_bounds [OF this] show b: "2 ^ h \<le> n" "n < 2 * 2 ^ h"
    by (simp_all add: h_def n_def)
  have "(2::nat) ^ 3 < 2 ^ Suc h" using n8 b(2) by simp
  then have "3 < Suc h" by (simp only: power_strict_increasing_iff rel_simps)
  then show h3: "3 \<le> h" by simp
  have "(2::nat) ^ h < 2 ^ 32" using nlt b(1) by simp
  then have "h < 32" by (simp only: power_strict_increasing_iff rel_simps)
  then show h31: "h \<le> 31" by simp
  have "h = (h - 3) + 3" using h3 by simp
  then have "(2::nat) ^ h = 2 ^ ((h - 3) + 3)" by simp
  then have split: "(2::nat) ^ h = 2 ^ (h - 3) * 8" by (simp only: power_add) simp
  show "8 \<le> n div 2 ^ (h - 3)"
    using b(1) split by (simp add: less_eq_div_iff_mult_less_eq mult.commute)
  show "n div 2 ^ (h - 3) < 16"
    using b(2) split by (simp add: div_less_iff_less_mult mult.commute)
  have "31 - lzcnt_nonzero S = (of_nat h :: 32 word)"
    using h31 by (simp add: lzcnt_nonzero_def h_def of_nat_diff)
  then show "31 - lzcnt_nonzero S - 3 = of_nat (h - 3)"
    using h3 by (simp add: of_nat_diff)
qed


lemma unat_take_bit32: "unat (take_bit k (w::32 word)) = unat w mod 2 ^ k"
  by (subst unsigned_take_bit_eq) (rule take_bit_eq_mod)

lemma unat_drop_bit32: "unat (drop_bit k (w::32 word)) = unat w div 2 ^ k"
  by (subst unat_drop_bit_eq) (rule drop_bit_eq_div)

lemma unat_push_bit32: "unat (push_bit k (w::32 word)) = (unat w * 2 ^ k) mod 2 ^ 32"
  by (subst unsigned_push_bit_eq) (simp add: take_bit_eq_mod push_bit_eq_mult)

lemma and7_take_bit: "(w::32 word) AND 7 = take_bit 3 w"
  by (simp add: take_bit_eq_mask mask_eq_exp_minus_1)

lemma unat_and7: "unat ((w::32 word) AND 7) = unat w mod 8"
  by (simp only: and7_take_bit unat_take_bit32) simp

lemma rd_word:
  fixes S :: "32 word"
  shows "unat (uintToFloatRoundDown S) = rd_nat (unat S)"
proof (cases "S < 8")
  case True
  then show ?thesis
    by (simp add: uintToFloatRoundDown_def rd_nat_def word_less_nat_alt)
next
  case False
  define h where "h = highest_bit (unat S)"
  define m where "m = h - 3"
  define q where "q = unat S div 2 ^ m"
  note nf = normal_facts [OF False, folded h_def, folded m_def, folded q_def]
  have m28: "m \<le> 28" using nf(2) by (simp add: m_def)
  have msb: "31 - lzcnt_nonzero S - 3 = (of_nat m :: 32 word)" by (fact nf(7))
  have um: "unat (of_nat m :: 32 word) = m" using m28 by (simp add: unat_of_nat)
  have and7: "drop_bit m S AND 7 = take_bit 3 (drop_bit m S)"
    by (simp add: take_bit_eq_mask mask_eq_exp_minus_1)
  have mant: "unat (drop_bit m S AND 7) = q - 8"
  proof -
    from and7 have "unat (drop_bit m S AND 7) = take_bit 3 (drop_bit m (unat S))"
      by (simp only: unsigned_take_bit_eq unat_drop_bit_eq)
    also have "\<dots> = q mod 8"
      by (simp only: take_bit_eq_mod drop_bit_eq_div q_def) simp
    also have "\<dots> = q - 8" using nf(5,6) by (simp add: mod_if)
    finally show ?thesis .
  qed
  have expo: "push_bit 3 (of_nat m + 1 :: 32 word) = of_nat (8 * (m + 1))"
    by (simp add: push_bit_eq_mult)
  have disj: "push_bit 3 (of_nat m + 1 :: 32 word) OR (drop_bit m S AND 7)
      = push_bit 3 (of_nat m + 1) + (drop_bit m S AND 7)"
  proof (rule disjunctive_add [symmetric])
    fix k
    show "\<not> bit (push_bit 3 (of_nat m + 1 :: 32 word)) k \<or> \<not> bit (drop_bit m S AND 7) k"
      unfolding and7 by (auto simp add: bit_simps)
  qed
  have msb1: "28 - lzcnt_nonzero S = (of_nat m :: 32 word)" using msb by simp
  have "29 - lzcnt_nonzero S = (28 - lzcnt_nonzero S) + 1" by simp
  then have msb2: "29 - lzcnt_nonzero S = (of_nat m + 1 :: 32 word)" by (simp only: msb1)
  have "uintToFloatRoundDown S = push_bit 3 (of_nat m + 1) OR (drop_bit m S AND 7)"
    using False by (simp add: uintToFloatRoundDown_def Let_def msb1 msb2 um del: push_bit_of_nat)
  then have "uintToFloatRoundDown S = push_bit 3 (of_nat m + 1) + (drop_bit m S AND 7)"
    by (simp only: disj)
  then have "uintToFloatRoundDown S = of_nat (8 * (m + 1)) + (drop_bit m S AND 7)"
    by (simp only: expo)
  then have "unat (uintToFloatRoundDown S) = (8 * (m + 1) + (q - 8)) mod 2 ^ 32"
    by (simp add: unat_word_ariths unat_of_nat mant mod_simps)
  also have "\<dots> = 8 * m + q" using m28 nf(5,6) by simp
  finally show ?thesis using False
    by (simp add: rd_nat_def word_less_nat_alt h_def m_def q_def)
qed


lemma ru_word:
  fixes S :: "32 word"
  shows "unat (uintToFloatRoundUp S) = ru_nat (unat S)"
proof (cases "S < 8")
  case True
  then show ?thesis
    by (simp add: uintToFloatRoundUp_def ru_nat_def word_less_nat_alt)
next
  case False
  define h where "h = highest_bit (unat S)"
  define m where "m = h - 3"
  define q where "q = unat S div 2 ^ m"
  note nf = normal_facts [OF False, folded h_def, folded m_def, folded q_def]
  have m28: "m \<le> 28" using nf(2) by (simp add: m_def)
  have msb: "31 - lzcnt_nonzero S - 3 = (of_nat m :: 32 word)" by (fact nf(7))
  have um: "unat (of_nat m :: 32 word) = m" using m28 by (simp add: unat_of_nat)
  have and7: "drop_bit m S AND 7 = take_bit 3 (drop_bit m S)"
    by (simp add: take_bit_eq_mask mask_eq_exp_minus_1)
  have mant: "unat (drop_bit m S AND 7) = q - 8"
  proof -
    from and7 have "unat (drop_bit m S AND 7) = take_bit 3 (drop_bit m (unat S))"
      by (simp only: unsigned_take_bit_eq unat_drop_bit_eq)
    also have "\<dots> = q mod 8"
      by (simp only: take_bit_eq_mod drop_bit_eq_div q_def) simp
    also have "\<dots> = q - 8" using nf(5,6) by (simp add: mod_if)
    finally show ?thesis .
  qed
  have low: "(S AND (push_bit m 1 - 1) \<noteq> 0) = (unat S mod 2 ^ m \<noteq> 0)"
  proof -
    have "S AND (push_bit m 1 - 1) = take_bit m S"
      by (simp add: take_bit_eq_mask mask_eq_exp_minus_1 push_bit_eq_mult)
    moreover have "unat (take_bit m S) = unat S mod 2 ^ m"
      by (rule unat_take_bit32)
    ultimately show ?thesis by (metis unat_eq_0)
  qed
  have expo: "push_bit 3 (of_nat m + 1 :: 32 word) = of_nat (8 * (m + 1))"
    by (simp add: push_bit_eq_mult)
  have msb1: "28 - lzcnt_nonzero S = (of_nat m :: 32 word)" using msb by simp
  have "29 - lzcnt_nonzero S = (28 - lzcnt_nonzero S) + 1" by simp
  then have msb2: "29 - lzcnt_nonzero S = (of_nat m + 1 :: 32 word)" by (simp only: msb1)
  have "uintToFloatRoundUp S = push_bit 3 (of_nat m + 1) +
      (if unat S mod 2 ^ m \<noteq> 0 then (drop_bit m S AND 7) + 1 else (drop_bit m S AND 7))"
    using False low
    by (simp add: uintToFloatRoundUp_def Let_def msb1 msb2 um del: push_bit_of_nat)
  then have "uintToFloatRoundUp S = of_nat (8 * (m + 1)) +
      (if unat S mod 2 ^ m \<noteq> 0 then (drop_bit m S AND 7) + 1 else (drop_bit m S AND 7))"
    by (simp only: expo)
  then have "unat (uintToFloatRoundUp S) =
      (8 * (m + 1) + (q - 8) + (if unat S mod 2 ^ m \<noteq> 0 then 1 else 0)) mod 2 ^ 32"
    by (simp add: unat_word_ariths unat_of_nat mant mod_simps)
  also have "\<dots> = 8 * m + q + (if unat S mod 2 ^ m \<noteq> 0 then 1 else 0)"
    using m28 nf(5,6) by simp
  finally show ?thesis using False
    by (simp add: ru_nat_def rd_nat_def word_less_nat_alt h_def m_def q_def)
qed

lemma dec_word:
  fixes v :: "32 word"
  shows "unat (floatToUint v) = dec_nat (unat v) mod 2 ^ 32"
proof (cases "v < 8")
  case True
  then have "unat (drop_bit 3 v) = 0"
    by (simp add: unat_drop_bit32 word_less_nat_alt)
  then have "drop_bit 3 v = 0" by (simp only: unat_eq_0)
  moreover have "unat (v AND 7) = unat v"
    using True by (simp add: unat_and7 word_less_nat_alt)
  ultimately show ?thesis using True
    by (simp add: floatToUint_def dec_nat_def word_less_nat_alt) 
next
  case False
  then have v8: "8 \<le> unat v" by (simp add: word_less_nat_alt)
  have ud: "unat (drop_bit 3 v) = unat v div 8"
    by (simp add: unat_drop_bit32)
  with v8 have nz: "drop_bit 3 v \<noteq> 0"
    by (metis div_greater_zero_iff unat_eq_0 zero_less_numeral not_gr_zero)
  have ue: "unat (drop_bit 3 v - 1) = unat v div 8 - 1"
    using nz ud by (metis unat_minus_one)
  have and7: "v AND 7 = take_bit 3 v"
    by (simp add: take_bit_eq_mask mask_eq_exp_minus_1)
  have "(v AND 7) OR 8 = (v AND 7) + 8"
  proof (rule disjunctive_add [symmetric])
    fix k
    have "(8::32 word) = push_bit 3 1" by simp
    then show "\<not> bit (v AND 7) k \<or> \<not> bit (8::32 word) k"
      unfolding and7 by (simp only: bit_simps) auto
  qed
  moreover have "unat ((v AND 7) + 8) = unat v mod 8 + 8"
  proof -
    have "unat (v AND 7) = unat v mod 8" by (rule unat_and7)
    then show ?thesis by (simp add: unat_word_ariths)
  qed
  ultimately have um: "unat ((v AND 7) OR 8) = 8 + unat v mod 8" by simp
  have "floatToUint v = push_bit (unat (drop_bit 3 v - 1)) ((v AND 7) OR 8)"
    using nz by (simp add: floatToUint_def Let_def)
  then have "unat (floatToUint v) = (unat ((v AND 7) OR 8) * 2 ^ unat (drop_bit 3 v - 1)) mod 2 ^ 32"
    by (simp only: unat_push_bit32)
  then show ?thesis using False
    by (simp add: um ue dec_nat_def word_less_nat_alt)
qed


lemma normal_nat:
  assumes "8 \<le> n"
  defines "m \<equiv> highest_bit n - 3"
  defines "q \<equiv> n div 2 ^ m"
  shows "rd_nat n = 8 * m + q" "8 \<le> q" "q < 16" "q * 2 ^ m \<le> n" "n < (q + 1) * 2 ^ m"
    "highest_bit n = m + 3"
proof -
  define h where "h = highest_bit n"
  from assms(1) have "0 < n" by simp
  from highest_bit_bounds [OF this] have b: "2 ^ h \<le> n" "n < 2 * 2 ^ h"
    by (simp_all add: h_def)
  have "(2::nat) ^ 3 < 2 ^ Suc h" using assms(1) b(2) by simp
  then have "3 < Suc h" by (simp only: power_strict_increasing_iff rel_simps)
  then have h3: "3 \<le> h" by simp
  then show "highest_bit n = m + 3" by (simp add: m_def h_def)
  then have "(2::nat) ^ h = 2 ^ (m + 3)" by (simp add: h_def)
  then have split: "(2::nat) ^ h = 2 ^ m * 8" by (simp only: power_add) simp
  show "8 \<le> q"
    using b(1) split by (simp add: q_def less_eq_div_iff_mult_less_eq mult.commute)
  show "q < 16"
    using b(2) split by (simp add: q_def div_less_iff_less_mult mult.commute)
  show "rd_nat n = 8 * m + q" using assms(1) by (simp add: rd_nat_def m_def q_def)
  show "q * 2 ^ m \<le> n" by (simp add: q_def)
  have lt: "q * 2 ^ m + n mod 2 ^ m < q * 2 ^ m + 2 ^ m" by simp
  have eq: "q * 2 ^ m + n mod 2 ^ m = n"
    unfolding q_def by (rule div_mult_mod_eq)
  from lt [unfolded eq] show "n < (q + 1) * 2 ^ m" by (simp add: algebra_simps)
qed

lemma dec_nat_split:
  assumes "r < 8"
  shows "dec_nat (8 * (e + 1) + r) = (8 + r) * 2 ^ e"
proof -
  have c: "8 * (e + 1) + r = r + (e + 1) * 8" by simp
  have "(r + (e + 1) * 8) div 8 = (e + 1) + r div 8" by (rule div_mult_self1) simp
  then have "(8 * (e + 1) + r) div 8 = e + 1" using assms by (simp only: c div_less add_0_right)
  moreover have "(r + (e + 1) * 8) mod 8 = r mod 8" by (rule mod_mult_self1)
  then have "(8 * (e + 1) + r) mod 8 = r" using assms by (simp only: c mod_less)
  moreover have "\<not> 8 * (e + 1) + r < 8" by simp
  ultimately show ?thesis by (simp only: dec_nat_def if_False) simp
qed

lemma dec_rd_nat:
  assumes "8 \<le> n"
  shows "dec_nat (rd_nat n) = (n div 2 ^ (highest_bit n - 3)) * 2 ^ (highest_bit n - 3)"
proof -
  define m where "m = highest_bit n - 3"
  define q where "q = n div 2 ^ m"
  note nn = normal_nat [OF assms, folded m_def, folded q_def]
  have "rd_nat n = 8 * (m + 1) + (q - 8)" using nn(1,2) by simp
  moreover have "q - 8 < 8" using nn(3) by simp
  ultimately have "dec_nat (rd_nat n) = (8 + (q - 8)) * 2 ^ m"
    by (simp only: dec_nat_split)
  then show ?thesis using nn(2) by (simp add: m_def q_def)
qed

lemma dec_rd_nat_le: "dec_nat (rd_nat n) \<le> n"
proof (cases "n < 8")
  case True
  then show ?thesis by (simp add: rd_nat_def dec_nat_def)
next
  case False
  then have "8 \<le> n" by simp
  from dec_rd_nat [OF this] show ?thesis by simp
qed

lemma dec_ru_nat:
  assumes "8 \<le> n"
  defines "m \<equiv> highest_bit n - 3"
  shows "dec_nat (ru_nat n) = (if n mod 2 ^ m = 0 then n else (n div 2 ^ m + 1) * 2 ^ m)"
proof (cases "n mod 2 ^ m = 0")
  case True
  then have "ru_nat n = rd_nat n" using assms(1) by (simp add: ru_nat_def m_def)
  moreover have "n div 2 ^ m * 2 ^ m = n" using True by (simp add: mod_0_imp_dvd)
  ultimately show ?thesis using True dec_rd_nat [OF assms(1)] by (simp add: m_def)
next
  case False
  define q where "q = n div 2 ^ m"
  note nn = normal_nat [OF assms(1), folded m_def, folded q_def]
  have ru: "ru_nat n = 8 * m + q + 1" using False assms(1) nn(1) by (simp add: ru_nat_def m_def)
  have "dec_nat (ru_nat n) = (q + 1) * 2 ^ m"
  proof (cases "q = 15")
    case True
    then have "ru_nat n = 8 * ((m + 1) + 1) + 0" using ru by simp
    then have "dec_nat (ru_nat n) = (8 + 0) * 2 ^ (m + 1)"
      by (simp only: dec_nat_split)
    then show ?thesis using True by simp
  next
    case neq: False
    then have "ru_nat n = 8 * (m + 1) + (q - 7)" using ru nn(2) by simp
    moreover have "q - 7 < 8" using nn(3) neq by simp
    ultimately have "dec_nat (ru_nat n) = (8 + (q - 7)) * 2 ^ m"
      by (simp only: dec_nat_split)
    then show ?thesis using nn(2) by simp
  qed
  then show ?thesis using False by (simp add: q_def)
qed

lemma dec_ru_nat_ge: "n \<le> dec_nat (ru_nat n)"
proof (cases "n < 8")
  case True
  then show ?thesis by (simp add: ru_nat_def dec_nat_def)
next
  case False
  then have n8: "8 \<le> n" by simp
  define m where "m = highest_bit n - 3"
  define q where "q = n div 2 ^ m"
  note nn = normal_nat [OF n8, folded m_def, folded q_def]
  from dec_ru_nat [OF n8, folded m_def, folded q_def] nn(5) show ?thesis
    by (simp split: if_splits)
qed

lemma highest_bit_lt32: "n < 2 ^ 32 \<Longrightarrow> highest_bit n \<le> 31"
proof (cases "n = 0")
  case True
  then show ?thesis by (simp add: highest_bit.simps)
next
  case False
  assume lt: "n < 2 ^ 32"
  from False have "0 < n" by simp
  from highest_bit_bounds [OF this] lt have "(2::nat) ^ highest_bit n < 2 ^ 32" by simp
  then have "highest_bit n < 32" by (simp only: power_strict_increasing_iff rel_simps)
  then show ?thesis by simp
qed

lemma rd_nat_bound: "n < 2 ^ 32 \<Longrightarrow> rd_nat n \<le> 239"
proof (cases "n < 8")
  case True
  then show ?thesis by (simp add: rd_nat_def)
next
  case False
  assume lt: "n < 2 ^ 32"
  from False have n8: "8 \<le> n" by simp
  note nn = normal_nat [OF n8]
  from highest_bit_lt32 [OF lt] have "highest_bit n - 3 \<le> 28" by simp
  with nn(1,3) show ?thesis by simp
qed

lemma ru_nat_le_Suc: "ru_nat n \<le> rd_nat n + 1"
  by (simp add: ru_nat_def rd_nat_def)

lemma ru_nat_bound: "n < 2 ^ 32 \<Longrightarrow> ru_nat n \<le> 240"
  using rd_nat_bound [of n] ru_nat_le_Suc [of n] by simp

lemma rd_le_ru_nat: "rd_nat n \<le> ru_nat n"
  by (simp add: ru_nat_def rd_nat_def)

lemma rd_nat_mono:
  assumes "a \<le> b"
  shows "rd_nat a \<le> rd_nat b"
proof (cases "b < 8")
  case True
  with assms show ?thesis by (simp add: rd_nat_def)
next
  case False
  then have b8: "8 \<le> b" by simp
  note nb = normal_nat [OF b8]
  show ?thesis
  proof (cases "a < 8")
    case True
    then have "rd_nat a = a" by (simp add: rd_nat_def)
    with True nb(1,2) show ?thesis by simp
  next
    case False
    then have a8: "8 \<le> a" by simp
    note na = normal_nat [OF a8]
    from highest_bit_mono [OF assms] have hm: "highest_bit a - 3 \<le> highest_bit b - 3" by simp
    show ?thesis
    proof (cases "highest_bit a - 3 = highest_bit b - 3")
      case True
      then show ?thesis using na(1) nb(1) assms by (simp add: div_le_mono)
    next
      case False
      with hm have "highest_bit a - 3 + 1 \<le> highest_bit b - 3" by simp
      then have "8 * (highest_bit a - 3) + 8 \<le> 8 * (highest_bit b - 3)" by simp
      with na(1,3) nb(1,2) show ?thesis by simp
    qed
  qed
qed

lemma ru_le_rd_nat:
  assumes "ru_nat a \<le> rd_nat b"
  shows "a \<le> b"
proof (rule ccontr)
  assume "\<not> a \<le> b"
  then have lt: "b < a" by simp
  then have "rd_nat b \<le> rd_nat a" by (simp add: rd_nat_mono)
  with assms rd_le_ru_nat [of a] have eq: "rd_nat b = rd_nat a" "ru_nat a = rd_nat a" by simp_all
  show False
  proof (cases "a < 8")
    case True
    with lt eq(1) show False by (simp add: rd_nat_def)
  next
    case False
    then have a8: "8 \<le> a" by simp
    from eq(2) a8 have ex: "a mod 2 ^ (highest_bit a - 3) = 0"
      by (simp add: ru_nat_def split: if_splits)
    with dec_ru_nat [OF a8] have "dec_nat (ru_nat a) = a" by simp
    then have "dec_nat (rd_nat b) = a" by (simp only: eq)
    with dec_rd_nat_le [of b] lt show False by simp
  qed
qed

lemma roundUp_le_roundDown:
  "uintToFloatRoundUp S \<le> uintToFloatRoundDown T \<Longrightarrow> S \<le> T"
  by (simp add: word_le_nat_alt rd_word ru_word ru_le_rd_nat)

lemma roundDown_bound: "uintToFloatRoundDown S \<le> 239"
proof -
  have "unat S < 2 ^ 32" using unsigned_less [of S] by simp
  from rd_nat_bound [OF this] show ?thesis by (simp add: word_le_nat_alt rd_word)
qed

lemma roundUp_bound: "uintToFloatRoundUp S \<le> 240"
proof -
  have "unat S < 2 ^ 32" using unsigned_less [of S] by simp
  from ru_nat_bound [OF this] show ?thesis by (simp add: word_le_nat_alt ru_word)
qed

lemma decode_roundDown_le: "floatToUint (uintToFloatRoundDown S) \<le> S"
proof -
  have "dec_nat (rd_nat (unat S)) mod 2 ^ 32 \<le> dec_nat (rd_nat (unat S))" by simp
  also have "\<dots> \<le> unat S" by (rule dec_rd_nat_le)
  finally show ?thesis by (simp add: word_le_nat_alt dec_word rd_word)
qed

lemma decode_roundUp_ge:
  assumes "S \<le> 0xF0000000"
  shows "S \<le> floatToUint (uintToFloatRoundUp S)"
proof -
  define n where "n = unat S"
  have nle: "n \<le> 15 * 2 ^ 28" using assms by (simp add: n_def word_le_nat_alt)
  have "dec_nat (ru_nat n) < 2 ^ 32"
  proof (cases "n < 8")
    case True
    then show ?thesis by (simp add: ru_nat_def dec_nat_def)
  next
    case False
    then have n8: "8 \<le> n" by simp
    define m where "m = highest_bit n - 3"
    define q where "q = n div 2 ^ m"
    note nn = normal_nat [OF n8, folded m_def, folded q_def]
    have "n < 2 ^ 32" using nle by simp
    from highest_bit_lt32 [OF this] have m28: "m \<le> 28" by (simp add: m_def)
    show ?thesis
    proof (cases "n mod 2 ^ m = 0")
      case True
      with dec_ru_nat [OF n8, folded m_def] nle show ?thesis by simp
    next
      case False
      then have d: "dec_nat (ru_nat n) = (q + 1) * 2 ^ m"
        using dec_ru_nat [OF n8, folded m_def, folded q_def] by simp
      show ?thesis
      proof (cases "m = 28")
        case True
        have "n \<noteq> q * 2 ^ m" using False by auto
        with nn(4) have "q * 2 ^ m < n" by simp
        with nle True have "q * 2 ^ 28 < 15 * 2 ^ 28" by simp
        then have "q < 15" by simp
        then have "(q + 1) * 2 ^ 28 \<le> 15 * 2 ^ 28" by simp
        then show ?thesis using d True by simp
      next
        case neq: False
        with m28 have "m \<le> 27" by simp
        then have p: "(2::nat) ^ m \<le> 2 ^ 27" by (simp only: power_increasing_iff rel_simps)
        have "q + 1 \<le> 16" using nn(3) by simp
        from this p have "(q + 1) * 2 ^ m \<le> 16 * 2 ^ 27" by (rule mult_le_mono)
        then show ?thesis using d by simp
      qed
    qed
  qed
  then have "unat (floatToUint (uintToFloatRoundUp S)) = dec_nat (ru_nat n)"
    by (simp add: dec_word ru_word n_def)
  with dec_ru_nat_ge [of n] show ?thesis by (simp add: word_le_nat_alt n_def)
qed


section \<open>Claims about the size encoding\<close>

lemma roundtrip_all_below_240: "all_below roundtrip_at 240"
  by (simp add: all_below_numeral roundtrip_at_def uintToFloatRoundUp_def
      uintToFloatRoundDown_def floatToUint_def lzcnt_nonzero_def Let_def)

text \<open>
  Claim C4.  For every value \<open>v\<close> below 240, encoding the decoded value gives \<open>v\<close> back,
  rounding up as well as rounding down:
  \<open>uintToFloatRoundUp (floatToUint v) = v\<close> and \<open>uintToFloatRoundDown (floatToUint v) = v\<close>.
\<close>

theorem C4_roundtrip:
  "v < 240 \<Longrightarrow>
     uintToFloatRoundUp (floatToUint v) = v \<and> uintToFloatRoundDown (floatToUint v) = v"
proof -
  assume "v < 240"
  then have "unat v < 240" by (simp add: word_less_nat_alt)
  with roundtrip_all_below_240 have "roundtrip_at (unat v)"
    unfolding all_below_iff by blast
  then show ?thesis by (simp add: roundtrip_at_def)
qed

theorem C4_roundtrip_witness:
  "(239 :: uint32) < 240 \<and> uintToFloatRoundUp (floatToUint 239) = 239 \<and>
     uintToFloatRoundDown (floatToUint 239) = 239"
  using C4_roundtrip [of 239] by simp

lemma decode_roundUp_wraps:
  assumes "0xF0000000 < S"
  shows "floatToUint (uintToFloatRoundUp S) = 0"
proof -
  define n where "n = unat S"
  have lo: "15 * 2 ^ 28 < n" using assms by (simp add: n_def word_less_nat_alt)
  have hi: "n < 2 ^ 32" unfolding n_def using unsigned_less [of S] by simp
  have "2 ^ 31 \<le> n" "n < 2 * 2 ^ 31" using lo hi by simp_all
  then have h: "highest_bit n = 31" by (rule highest_bit_unique)
  have n8: "8 \<le> n" using lo by simp
  have "n div 2 ^ 28 = 15" using lo hi by simp
  moreover have "n mod 2 ^ 28 \<noteq> 0"
  proof
    assume z: "n mod 2 ^ 28 = 0"
    have "n = n div 2 ^ 28 * 2 ^ 28 + n mod 2 ^ 28" by (rule div_mult_mod_eq [symmetric])
    also have "\<dots> = 15 * 2 ^ 28 + 0" by (simp only: \<open>n div 2 ^ 28 = 15\<close> z)
    finally have "n = 15 * 2 ^ 28" by simp
    with lo show False by simp
  qed
  ultimately have "dec_nat (ru_nat n) = 2 ^ 32"
    using dec_ru_nat [OF n8] h by simp
  then have "unat (floatToUint (uintToFloatRoundUp S)) = 0"
    by (simp add: dec_word ru_word n_def)
  then show ?thesis by (simp only: unat_eq_0)
qed

text \<open>
  Claim C5, as stated: for every 32-bit size \<open>S\<close>, \<open>decode (round_up S) \<ge> S\<close> and
  \<open>decode (round_down S) \<le> S\<close>, with \<open>decode\<close> computed on 32 bits.  The first half fails
  for the largest sizes: \<open>0xFFFFFFFF\<close> rounds up to bin 240, whose nominal size
  \<open>2 ^ 32\<close> wraps to 0.
\<close>

theorem C5_counterexample:
  "floatToUint (uintToFloatRoundUp 0xFFFFFFFF) = 0 \<and>
   \<not> (0xFFFFFFFF :: uint32) \<le> floatToUint (uintToFloatRoundUp 0xFFFFFFFF)"
  by (simp add: uintToFloatRoundUp_def floatToUint_def lzcnt_nonzero_def Let_def)

text \<open>
  Claim C5, amended.  The nominal size of the round-down bin never exceeds \<open>S\<close>, for
  every 32-bit \<open>S\<close>.  The nominal size of the round-up bin is at least \<open>S\<close> exactly for
  the sizes up to \<open>0xF0000000\<close>, the nominal size of bin 239; above it the decoded value
  wraps to 0.
\<close>

theorem C5_nominal_sizes:
  "floatToUint (uintToFloatRoundDown S) \<le> S \<and>
   (S \<le> floatToUint (uintToFloatRoundUp S)) = (S \<le> 0xF0000000)"
proof (cases "S \<le> 0xF0000000")
  case True
  then show ?thesis by (simp add: decode_roundDown_le decode_roundUp_ge)
next
  case False
  then have gt: "0xF0000000 < S" by simp
  then have "S \<noteq> 0" by auto
  with decode_roundUp_wraps [OF gt] have "\<not> S \<le> floatToUint (uintToFloatRoundUp S)"
    by simp
  with False decode_roundDown_le [of S] show ?thesis by simp
qed

section \<open>A test scenario\<close>

text \<open>
  Claim C9.  On an allocator initialised with size 256 MiB and 131072 nodes, the
  sequence \<open>a = allocate 1024\<close>, \<open>b = allocate 3456\<close>, \<open>free a\<close>, \<open>c = allocate 2345\<close>,
  \<open>d = allocate 456\<close>, \<open>e = allocate 512\<close> runs without failure and gives
  \<open>c.offset = 4480\<close>, \<open>d.offset = 0\<close> and \<open>e.offset = 456\<close>.
\<close>

theorem C9_offset_reuse:
  "do { s0 \<leftarrow> initAllocator 0x10000000 131072;
        (a, s1) \<leftarrow> allocate s0 1024;
        (b, s2) \<leftarrow> allocate s1 3456;
        s3 \<leftarrow> freeAllocation s2 a;
        (c, s4) \<leftarrow> allocate s3 2345;
        (d, s5) \<leftarrow> allocate s4 456;
        (e, s6) \<leftarrow> allocate s5 512;
        Some (offset c, offset d, offset e) } = Some (4480, 0, 456)"
  by (simp add: eval_defs cong: option_bind_weak_cong let_weak_cong)

end
